theory Spec2Isabelle
  imports
    Main
    "HOL-Library.Char_ord"
    "HOL-Library.List_Lexorder"
    "HOL-Library.Sublist"
    "HOL-Library.Finite_Map"
    "HOL-Library.Multiset"
begin

section \<open>Strings and paths\<close>

text \<open>
  Python strings are modelled as \<^typ>\<open>string\<close>; the order on them (from
  \<open>Char_ord\<close> and \<open>List_Lexorder\<close>) is the lexicographic order on character codes
  that Python uses to compare \<open>str\<close> values. \<open>str.lower\<close> is modelled on the ASCII
  letters; every other character is left as it is.
\<close>

definition lower_char :: "char \<Rightarrow> char" where
  "lower_char c =
     (let n = (of_char c :: nat) in if 65 \<le> n \<and> n \<le> 90 then char_of (n + 32) else c)"

definition lower :: "string \<Rightarrow> string" where
  "lower s = map lower_char s"

text \<open>\<open>s.endswith(t)\<close>.\<close>

definition endswith :: "string \<Rightarrow> string \<Rightarrow> bool" where
  "endswith s t = (length t \<le> length s \<and> drop (length s - length t) s = t)"

text \<open>\<open>s.split(sep)\<close> for a one-character separator: empty fields are kept.\<close>

fun split_sep :: "char \<Rightarrow> string \<Rightarrow> string list" where
  "split_sep sep [] = [[]]"
| "split_sep sep (c # cs) =
     (if c = sep then [] # split_sep sep cs
      else (case split_sep sep cs of
              [] \<Rightarrow> [[c]]
            | x # xs \<Rightarrow> (c # x) # xs))"

text \<open>
  \<open>pathlib\<close> on a POSIX system: the root of a path string is \<open>//\<close> when the string
  starts with exactly two slashes, \<open>/\<close> when it starts with any other number of
  slashes, and empty otherwise; the remaining components are the non-empty fields
  between slashes other than \<open>.\<close>.
\<close>

definition splitroot :: "string \<Rightarrow> string \<times> string" where
  "splitroot p =
     (if take 1 p \<noteq> ''/'' then ([], p)
      else (let stripped = dropWhile (\<lambda>c. c = CHR ''/'') p in
            if length p - length stripped = 2 then (''//'', stripped) else (''/'', stripped)))"

definition path_tail :: "string \<Rightarrow> string list" where
  "path_tail p = filter (\<lambda>x. x \<noteq> [] \<and> x \<noteq> ''.'') (split_sep CHR ''/'' (snd (splitroot p)))"

text \<open>\<open>Path(p).parts\<close>.\<close>

definition parts :: "string \<Rightarrow> string list" where
  "parts p = (let root = fst (splitroot p) in
              if root = [] then path_tail p else root # path_tail p)"

text \<open>\<open>Path(p).name\<close>: the last component, the root not counted; empty when there is none.\<close>

definition path_name :: "string \<Rightarrow> string" where
  "path_name p = (case path_tail p of [] \<Rightarrow> [] | _ \<Rightarrow> last (path_tail p))"

text \<open>\<open>s.rfind(c)\<close>, with \<open>None\<close> for Python's \<open>-1\<close>.\<close>

definition rfind :: "char \<Rightarrow> string \<Rightarrow> nat option" where
  "rfind c s =
     (if c \<in> set s then Some (length s - 1 - length (takeWhile (\<lambda>x. x \<noteq> c) (rev s)))
      else None)"

text \<open>
  \<open>Path.suffix\<close> and \<open>Path.stem\<close>, from the file name: the name is cut at its last
  dot, unless that dot is the first or the last character (the rule of \<open>pathlib\<close> up
  to Python 3.13).
\<close>

definition suffix_of :: "string \<Rightarrow> string" where
  "suffix_of name =
     (case rfind CHR ''.'' name of
        None \<Rightarrow> []
      | Some i \<Rightarrow> if 0 < i \<and> i < length name - 1 then drop i name else [])"

definition stem_of :: "string \<Rightarrow> string" where
  "stem_of name =
     (case rfind CHR ''.'' name of
        None \<Rightarrow> name
      | Some i \<Rightarrow> if 0 < i \<and> i < length name - 1 then take i name else name)"

text \<open>\<open>str(n)\<close> for a natural number: its decimal digits.\<close>

fun str_nat :: "nat \<Rightarrow> string" where
  "str_nat n =
     (if n < 10 then [char_of (48 + n)]
      else str_nat (n div 10) @ [char_of (48 + n mod 10)])"

declare str_nat.simps [simp del]

text \<open>\<open>xs.index(x)\<close>: the first position of \<open>x\<close>; Python raises \<open>ValueError\<close> when absent.\<close>

fun py_index :: "'a \<Rightarrow> 'a list \<Rightarrow> nat option" where
  "py_index x [] = None"
| "py_index x (y # ys) =
     (if y = x then Some 0 else map_option Suc (py_index x ys))"

text \<open>\<open>xs[i:-1]\<close>: from position \<open>i\<close> up to, and without, the last element.\<close>

definition slice_to_last :: "'a list \<Rightarrow> nat \<Rightarrow> 'a list" where
  "slice_to_last xs i = take ((length xs - 1) - i) (drop i xs)"

section \<open>The file system\<close>

text \<open>
  The part of the file system the program changes is a finite map from absolute paths
  (lists of components below the root) to nodes. The root is always a directory. A path
  handed to the operating system is resolved component by component, \<open>..\<close> stepping
  back to the parent. There are no symbolic links and no permissions in the model, and
  the device is never full: creating a directory fails only on a regular file, opening a
  file for writing only on a directory or a missing parent.
\<close>

type_synonym bytes = "nat list"

datatype node = Dir | File bytes

type_synonym path = "string list"

type_synonym filesystem = "(path, node) fmap"

definition normpath :: "path \<Rightarrow> path" where
  "normpath p = foldl (\<lambda>acc c. if c = ''..'' then butlast acc else acc @ [c]) [] p"

text \<open>The node at a resolved path.\<close>

definition lookup :: "filesystem \<Rightarrow> path \<Rightarrow> node option" where
  "lookup fs q = (if q = [] then Some Dir else fmlookup fs q)"

definition node_at :: "filesystem \<Rightarrow> path \<Rightarrow> node option" where
  "node_at fs p = lookup fs (normpath p)"

text \<open>\<open>Path.exists()\<close>.\<close>

definition exists :: "filesystem \<Rightarrow> path \<Rightarrow> bool" where
  "exists fs p = (node_at fs p \<noteq> None)"

text \<open>
  The exceptions the program tells apart: \<open>BadZipFile\<close>, and every other exception with
  its message.
\<close>

datatype exn = BadZipFile | OtherError string

text \<open>
  \<open>Path.mkdir(parents=True, exist_ok=True)\<close>: every prefix of the path that is missing
  is created as a directory, shortest first; a prefix that exists as a regular file
  raises (\<open>FileExistsError\<close> or \<open>NotADirectoryError\<close>), and the directories created
  before that stay.
\<close>

fun mkdirs :: "filesystem \<Rightarrow> path list \<Rightarrow> filesystem \<times> exn option" where
  "mkdirs fs [] = (fs, None)"
| "mkdirs fs (q # qs) =
     (case node_at fs q of
        Some (File d) \<Rightarrow> (fs, Some (OtherError ''File exists''))
      | Some Dir \<Rightarrow> mkdirs fs qs
      | None \<Rightarrow> mkdirs (fmupd (normpath q) Dir fs) qs)"

definition mkdir_p :: "filesystem \<Rightarrow> path \<Rightarrow> filesystem \<times> exn option" where
  "mkdir_p fs p = mkdirs fs (prefixes p)"

text \<open>
  \<open>open(path, "wb")\<close>: the parent must be a directory and the path must not be one; the
  file is created empty, or truncated when it exists.
\<close>

definition open_wb :: "filesystem \<Rightarrow> path \<Rightarrow> exn + filesystem" where
  "open_wb fs p =
     (let q = normpath p in
      if lookup fs q = Some Dir then Inl (OtherError ''Is a directory'')
      else if lookup fs (butlast q) \<noteq> Some Dir
        then Inl (OtherError ''No such file or directory'')
      else Inr (fmupd q (File []) fs))"

text \<open>Writing to the file opened at \<open>p\<close> appends to what was written before.\<close>

definition write_bytes :: "filesystem \<Rightarrow> path \<Rightarrow> bytes \<Rightarrow> filesystem" where
  "write_bytes fs p d =
     (case node_at fs p of
        Some (File old) \<Rightarrow> fmupd (normpath p) (File (old @ d)) fs
      | _ \<Rightarrow> fs)"

section \<open>Archives\<close>

text \<open>
  What the program sees of a zip file. Opening it either raises or gives the list of its
  members (\<open>infolist()\<close>, in the order of the container). Reading a member either fails
  when the member is opened, or fails after some bytes have been copied, or delivers all
  its bytes.
\<close>

datatype payload = OpenFails exn | ReadFails bytes exn | Reads bytes

record member =
  filename :: string
  content :: payload

datatype archive = Unopenable exn | Zip "member list"

text \<open>\<open>ZipInfo.is_dir()\<close>: the member's name ends with a slash.\<close>

definition is_dir :: "member \<Rightarrow> bool" where
  "is_dir m = endswith (filename m) ''/''"

section \<open>The program\<close>

definition marker :: string where
  "marker = ''Google Photos''"

definition allowed_suffixes :: "string set" where
  "allowed_suffixes = {''.jpg'', ''.jpeg''}"

text \<open>
  The three tests that let the loop go on to the next member without doing anything:
  the member is a directory, the marker is not among the components of its path, or
  the suffix of its name, in lower case, is not an allowed one.
\<close>

definition passed_over :: "member \<Rightarrow> bool" where
  "passed_over m =
     (is_dir m
      \<or> marker \<notin> set (parts (filename m))
      \<or> lower (suffix_of (path_name (filename m))) \<notin> allowed_suffixes)"

text \<open>
  The components after the first occurrence of the marker, without the last one.
\<close>

definition subfolders :: "member \<Rightarrow> exn + string list" where
  "subfolders m =
     (let member_parts = parts (filename m) in
      case py_index marker member_parts of
        None \<Rightarrow> Inl (OtherError ''ValueError'')
      | Some gp_index \<Rightarrow> Inr (slice_to_last member_parts (gp_index + 1)))"

text \<open>
  The loop that handles duplicate file names. \<open>final_path\<close> is the target folder
  followed by \<open>name\<close>; as long as it exists, the next name is made of the stem of the
  current name, an underscore, the counter, and the suffix of the current name.
\<close>

definition next_name :: "string \<Rightarrow> nat \<Rightarrow> string" where
  "next_name name counter = stem_of name @ ''_'' @ str_nat counter @ suffix_of name"

function collision_loop :: "filesystem \<Rightarrow> path \<Rightarrow> string \<Rightarrow> nat \<Rightarrow> path \<times> nat" where
  "collision_loop fs target_folder name counter =
     (if exists fs (target_folder @ [name])
      then collision_loop fs target_folder (next_name name counter) (counter + 1)
      else (target_folder @ [name], counter))"
  by pat_completeness auto

lemma normpath_snoc:
  "normpath (xs @ [c]) = (if c = ''..'' then butlast (normpath xs) else normpath xs @ [c])"
  by (simp add: normpath_def)

lemma stem_suffix: "stem_of name @ suffix_of name = name"
  by (simp add: stem_of_def suffix_of_def split: option.splits)

lemma length_next_name: "length name < length (next_name name counter)"
proof -
  have "length (next_name name counter) = length (stem_of name @ suffix_of name) + 1 + length (str_nat counter)"
    by (simp add: next_name_def)
  then show ?thesis by (simp add: stem_suffix)
qed

lemma underscore_next_name: "CHR ''_'' \<in> set (next_name name counter)"
  by (simp add: next_name_def)

lemma next_name_not_dotdot: "next_name name counter \<noteq> ''..''"
  using underscore_next_name [of name counter] by auto

lemma exists_in_dom:
  assumes "exists fs (folder @ [name])" "name \<noteq> ''..''"
  shows "normpath folder @ [name] \<in> fmdom' fs"
  using assms by (auto simp: exists_def node_at_def lookup_def normpath_snoc fmlookup_dom'_iff)

text \<open>
  The loop ends: a name that exists is among the finitely many paths of the file system,
  and every later name is longer.
\<close>

termination collision_loop
proof (relation "measures [\<lambda>(fs, folder, name, counter). if name = ''..'' then 1 else 0,
                           \<lambda>(fs, folder, name, counter). card {q \<in> fmdom' fs. length name \<le> length (last q)}]", goal_cases)
  case 1
  then show ?case by simp
next
  case (2 fs folder name counter)
  show ?case
  proof (cases "name = ''..''")
    case True
    then show ?thesis using next_name_not_dotdot by simp
  next
    case False
    let ?A = "{q \<in> fmdom' fs. length name \<le> length (last q)}"
    let ?B = "{q \<in> fmdom' fs. length (next_name name counter) \<le> length (last q)}"
    have mem: "normpath folder @ [name] \<in> ?A"
      using exists_in_dom [OF 2 False] by simp
    have nmem: "normpath folder @ [name] \<notin> ?B"
      using length_next_name [of name counter] by simp
    have "?B \<subseteq> ?A" using length_next_name [of name counter] by auto
    with mem nmem have "?B \<subset> ?A" by blast
    then have "card ?B < card ?A" by (intro psubset_card_mono) simp_all
    then show ?thesis using False next_name_not_dotdot by simp
  qed
qed

text \<open>
  Copying the member to \<open>final_path\<close>: the member is opened first, then the output
  file, then the bytes are copied.
\<close>

definition copy_member :: "filesystem \<Rightarrow> member \<Rightarrow> path \<Rightarrow> filesystem \<times> exn option" where
  "copy_member fs m final_path =
     (case content m of
        OpenFails e \<Rightarrow> (fs, Some e)
      | ReadFails d e \<Rightarrow>
          (case open_wb fs final_path of
             Inl e' \<Rightarrow> (fs, Some e')
           | Inr fs1 \<Rightarrow> (write_bytes fs1 final_path d, Some e))
      | Reads d \<Rightarrow>
          (case open_wb fs final_path of
             Inl e' \<Rightarrow> (fs, Some e')
           | Inr fs1 \<Rightarrow> (write_bytes fs1 final_path d, None)))"

text \<open>
  The destination of a member that was not passed over: the target folder is made, the
  loop finds a free name, the member is copied there.
\<close>

definition materialize ::
  "filesystem \<Rightarrow> path \<Rightarrow> string list \<Rightarrow> string \<Rightarrow> member \<Rightarrow> filesystem \<times> exn option" where
  "materialize fs dest_dir subs name m =
     (let target_folder = dest_dir @ subs in
      case mkdir_p fs target_folder of
        (fs1, Some e) \<Rightarrow> (fs1, Some e)
      | (fs1, None) \<Rightarrow> copy_member fs1 m (fst (collision_loop fs1 target_folder name 1)))"

definition extract_member :: "filesystem \<Rightarrow> path \<Rightarrow> member \<Rightarrow> filesystem \<times> exn option" where
  "extract_member fs dest_dir m =
     (if passed_over m then (fs, None)
      else case subfolders m of
             Inl e \<Rightarrow> (fs, Some e)
           | Inr subs \<Rightarrow> materialize fs dest_dir subs (path_name (filename m)) m)"

text \<open>The members of one archive, in order, up to the first exception.\<close>

fun process_members :: "filesystem \<Rightarrow> path \<Rightarrow> member list \<Rightarrow> filesystem \<times> exn option" where
  "process_members fs dest_dir [] = (fs, None)"
| "process_members fs dest_dir (m # ms) =
     (case extract_member fs dest_dir m of
        (fs1, Some e) \<Rightarrow> (fs1, Some e)
      | (fs1, None) \<Rightarrow> process_members fs1 dest_dir ms)"

definition process_zip :: "filesystem \<Rightarrow> path \<Rightarrow> archive \<Rightarrow> filesystem \<times> exn option" where
  "process_zip fs dest_dir a =
     (case a of
        Unopenable e \<Rightarrow> (fs, Some e)
      | Zip ms \<Rightarrow> process_members fs dest_dir ms)"

text \<open>The lines the program prints.\<close>

datatype line =
    Usage
  | Processing string
  | SkippingInvalid string
  | SkippingError string string
  | SummaryHeader
  | SuccessHeader
  | SuccessItem string
  | NoSuccess
  | SkippedHeader
  | SkippedItem string
  | Finished

record state =
  disk :: filesystem
  successful_zips :: "string list"
  skipped_zips :: "string list"
  printed :: "line list"

text \<open>Before the first archive: nothing printed, both lists empty.\<close>

definition initial_state :: "filesystem \<Rightarrow> state" where
  "initial_state fs = \<lparr>disk = fs, successful_zips = [], skipped_zips = [], printed = []\<rparr>"

text \<open>One turn of the loop over the archives: the body of the \<open>try\<close> and its handlers.\<close>

definition process_one :: "path \<Rightarrow> state \<Rightarrow> string \<times> archive \<Rightarrow> state" where
  "process_one dest_dir st za =
     (let zname = fst za;
          st1 = st\<lparr>printed := printed st @ [Processing zname]\<rparr> in
      case process_zip (disk st1) dest_dir (snd za) of
        (fs1, None) \<Rightarrow>
          st1\<lparr>disk := fs1, successful_zips := successful_zips st1 @ [zname]\<rparr>
      | (fs1, Some BadZipFile) \<Rightarrow>
          st1\<lparr>disk := fs1, printed := printed st1 @ [SkippingInvalid zname],
              skipped_zips := skipped_zips st1 @ [zname]\<rparr>
      | (fs1, Some (OtherError msg)) \<Rightarrow>
          st1\<lparr>disk := fs1, printed := printed st1 @ [SkippingError zname msg],
              skipped_zips := skipped_zips st1 @ [zname]\<rparr>)"

fun process_all :: "path \<Rightarrow> state \<Rightarrow> (string \<times> archive) list \<Rightarrow> state" where
  "process_all dest_dir st [] = st"
| "process_all dest_dir st (za # zas) = process_all dest_dir (process_one dest_dir st za) zas"

text \<open>
  The archives of the source directory. \<open>glob("*.zip")\<close> gives the entries of the
  directory whose name ends with \<open>.zip\<close>, in the order the file system lists them, and
  nothing when the directory cannot be listed; \<open>sorted\<close> is a stable sort on the name in
  lower case.
\<close>

definition glob_zip :: "(string \<times> archive) list option \<Rightarrow> (string \<times> archive) list" where
  "glob_zip listing =
     (case listing of
        None \<Rightarrow> []
      | Some entries \<Rightarrow> filter (\<lambda>za. endswith (fst za) ''.zip'') entries)"

definition sorted_zips :: "(string \<times> archive) list \<Rightarrow> (string \<times> archive) list" where
  "sorted_zips zs = sort_key (\<lambda>za. lower (fst za)) zs"

definition summary :: "string list \<Rightarrow> string list \<Rightarrow> line list" where
  "summary successful skipped =
     [SummaryHeader]
     @ (if successful \<noteq> [] then SuccessHeader # map SuccessItem (sort_key lower successful)
        else [NoSuccess])
     @ (if skipped \<noteq> [] then SkippedHeader # map SkippedItem skipped else [])
     @ [Finished]"

text \<open>
  The environment of a run: how a path argument resolves to an absolute path, what each
  directory lists (\<open>None\<close> when it is missing, not a directory or unreadable), and the
  file system the run writes to.
\<close>

record env =
  resolve :: "string \<Rightarrow> path"
  scandir :: "path \<Rightarrow> (string \<times> archive) list option"
  files :: filesystem

text \<open>
  How a run ends: with an exit status, or with an exception nobody caught (the
  interpreter then prints a traceback and the status is 1). Both carry the lines printed
  and the file system left behind.
\<close>

datatype outcome =
    Exited nat "line list" filesystem
  | Uncaught exn "line list" filesystem



fun final_disk :: "outcome \<Rightarrow> filesystem" where
  "final_disk (Exited n out fs) = fs"
| "final_disk (Uncaught e out fs) = fs"

definition main :: "string list \<Rightarrow> env \<Rightarrow> outcome" where
  "main argv e =
     (if length argv \<noteq> 3 then Exited 1 [Usage] (files e)
      else
        let source_dir = resolve e (argv ! 1);
            dest_dir = resolve e (argv ! 2) in
        case mkdir_p (files e) dest_dir of
          (fs1, Some ex) \<Rightarrow> Uncaught ex [] fs1
        | (fs1, None) \<Rightarrow>
            let st = process_all dest_dir (initial_state fs1)
                       (sorted_zips (glob_zip (scandir e source_dir)))
            in Exited 0 (printed st @ summary (successful_zips st) (skipped_zips st)) (disk st))"

declare collision_loop.simps [simp del]

section \<open>Reading a run\<close>

text \<open>
  The names in the lines of one kind, in the order printed: the archives announced, the
  archives warned about when they were skipped, and the items of the two lists of the
  summary.
\<close>

fun announced :: "line list \<Rightarrow> string list" where
  "announced [] = []"
| "announced (Processing n # ls) = n # announced ls"
| "announced (l # ls) = announced ls"

fun warned :: "line list \<Rightarrow> string list" where
  "warned [] = []"
| "warned (SkippingInvalid n # ls) = n # warned ls"
| "warned (SkippingError n msg # ls) = n # warned ls"
| "warned (l # ls) = warned ls"

fun success_items :: "line list \<Rightarrow> string list" where
  "success_items [] = []"
| "success_items (SuccessItem n # ls) = n # success_items ls"
| "success_items (l # ls) = success_items ls"

fun skipped_items :: "line list \<Rightarrow> string list" where
  "skipped_items [] = []"
| "skipped_items (SkippedItem n # ls) = n # skipped_items ls"
| "skipped_items (l # ls) = skipped_items ls"

text \<open>
  The outcome of every archive of a batch, in the order processed: its name, and the
  exception that ended its processing, if any. Each archive is processed on the file
  system the archives before it have left.
\<close>

fun outcomes :: "path \<Rightarrow> filesystem \<Rightarrow> (string \<times> archive) list \<Rightarrow> (string \<times> exn option) list" where
  "outcomes dest_dir fs [] = []"
| "outcomes dest_dir fs (za # zas) =
     (fst za, snd (process_zip fs dest_dir (snd za)))
     # outcomes dest_dir (fst (process_zip fs dest_dir (snd za))) zas"

text \<open>The names of the outcomes without an exception, and of those with one.\<close>

definition succeeded :: "(string \<times> exn option) list \<Rightarrow> string list" where
  "succeeded rs = map fst (filter (\<lambda>r. snd r = None) rs)"

definition failed :: "(string \<times> exn option) list \<Rightarrow> string list" where
  "failed rs = map fst (filter (\<lambda>r. snd r \<noteq> None) rs)"


section \<open>The vocabulary of the properties\<close>


text \<open>The \<open>k\<close>-th name the loop tries after \<open>name\<close>, the counter standing at \<open>counter\<close>.\<close>

fun candidate :: "string \<Rightarrow> nat \<Rightarrow> nat \<Rightarrow> string" where
  "candidate name counter 0 = name"
| "candidate name counter (Suc k) = candidate (next_name name counter) (counter + 1) k"

text \<open>
  Eligibility in the words of the specification: the marker is one of the components of
  the path, and the extension of its final component, in lower case, is \<open>.jpg\<close> or
  \<open>.jpeg\<close>.
\<close>

definition spec_eligible :: "string list \<Rightarrow> bool" where
  "spec_eligible components =
     (''Google Photos'' \<in> set components
      \<and> (lower (suffix_of (last components)) = ''.jpg''
         \<or> lower (suffix_of (last components)) = ''.jpeg''))"












section \<open>Inputs of the examples\<close>

text \<open>
  A readable member; an environment in which \<open>/src\<close> is the one directory that can be
  listed and every path argument is absolute; file systems and batches.
\<close>

definition photo :: "string \<Rightarrow> bytes \<Rightarrow> member" where
  "photo fname d = \<lparr>filename = fname, content = Reads d\<rparr>"

definition env_of :: "(string \<times> archive) list \<Rightarrow> filesystem \<Rightarrow> env" where
  "env_of listing fs =
     \<lparr>resolve = path_tail,
      scandir = (\<lambda>p. if p = [''src''] then Some listing else None),
      files = fs\<rparr>"

definition one_photo :: filesystem where
  "one_photo = fmupd [''dst'', ''photo.jpg''] (File [1]) (fmupd [''dst''] Dir fmempty)"

definition three_trips :: "(string \<times> archive) list" where
  "three_trips =
     [(''A.zip'', Zip [photo ''Google Photos/Trip/photo.jpg'' [1]]),
      (''B.zip'', Zip [photo ''Google Photos/Trip/photo.jpg'' [2]]),
      (''C.zip'', Zip [photo ''Google Photos/Trip/photo.jpg'' [3]])]"

definition day_one :: member where
  "day_one = photo ''Takeout/Google Photos/Trip/Day 1/IMG_1.JPG'' [7]"






definition other_folder_batch :: "(string \<times> archive) list" where
  "other_folder_batch =
     [(''A.zip'', Zip [photo ''Other Folder/photo.jpg'' [1]]),
      (''broken.zip'', Unopenable BadZipFile)]"







section \<open>Every step only adds nodes\<close>


















lemma disk_process_one: "disk (process_one dest st za) = fst (process_zip (disk st) dest (snd za))"
  by (simp add: process_one_def Let_def split: prod.splits option.splits exn.splits)




section \<open>The loop that handles duplicate names\<close>

lemma longer_names_fewer:
  assumes "exists fs (t @ [name])" "name \<noteq> ''..''"
  shows "card {q \<in> fmdom' fs. length (next_name name c) \<le> length (last q)}
         < card {q \<in> fmdom' fs. length name \<le> length (last q)}"
proof -
  let ?A = "{q \<in> fmdom' fs. length name \<le> length (last q)}"
  let ?B = "{q \<in> fmdom' fs. length (next_name name c) \<le> length (last q)}"
  have "normpath t @ [name] \<in> ?A" using exists_in_dom [OF assms] by simp
  moreover have "normpath t @ [name] \<notin> ?B" using length_next_name [of name c] by simp
  moreover have "?B \<subseteq> ?A" using length_next_name [of name c] by auto
  ultimately have "?B \<subset> ?A" by blast
  then show ?thesis by (intro psubset_card_mono) simp_all
qed

lemma collision_loop_steps:
  "\<exists>k. k \<le> card {q \<in> fmdom' fs. length name \<le> length (last q)} + (if name = ''..'' then 1 else 0)
     \<and> collision_loop fs t name c = (t @ [candidate name c k], c + k)
     \<and> \<not> exists fs (t @ [candidate name c k])
     \<and> (\<forall>j<k. exists fs (t @ [candidate name c j]))"
proof (induction fs t name c rule: collision_loop.induct)
  case (1 fs t name c)
  show ?case
  proof (cases "exists fs (t @ [name])")
    case False
    then have "collision_loop fs t name c = (t @ [candidate name c 0], c + 0)"
      by (subst collision_loop.simps) simp
    with False show ?thesis by (intro exI [of _ 0]) simp
  next
    case True
    let ?n = "next_name name c"
    from 1 [OF True] obtain k where
      bound: "k \<le> card {q \<in> fmdom' fs. length ?n \<le> length (last q)} + (if ?n = ''..'' then 1 else 0)"
      and run: "collision_loop fs t ?n (c + 1) = (t @ [candidate ?n (c + 1) k], c + 1 + k)"
      and free: "\<not> exists fs (t @ [candidate ?n (c + 1) k])"
      and taken: "\<forall>j<k. exists fs (t @ [candidate ?n (c + 1) j])"
      by blast
    have b1: "k \<le> card {q \<in> fmdom' fs. length ?n \<le> length (last q)}"
      using bound next_name_not_dotdot by simp
    have b2: "Suc k \<le> card {q \<in> fmdom' fs. length name \<le> length (last q)} + (if name = ''..'' then 1 else 0)"
    proof (cases "name = ''..''")
      case True
      have "{q \<in> fmdom' fs. length ?n \<le> length (last q)} \<subseteq> {q \<in> fmdom' fs. length name \<le> length (last q)}"
        using length_next_name [of name c] by auto
      then have "card {q \<in> fmdom' fs. length ?n \<le> length (last q)} \<le> card {q \<in> fmdom' fs. length name \<le> length (last q)}"
        by (intro card_mono) simp_all
      with b1 True show ?thesis by simp
    next
      case False
      with longer_names_fewer [OF True False, of c] b1 show ?thesis by simp
    qed
    have r: "collision_loop fs t name c = (t @ [candidate name c (Suc k)], c + Suc k)"
      using True run by (subst collision_loop.simps) simp
    have tk: "\<forall>j<Suc k. exists fs (t @ [candidate name c j])"
    proof (intro allI impI)
      fix j assume "j < Suc k"
      then show "exists fs (t @ [candidate name c j])"
        using True taken by (cases j) simp_all
    qed
    from b2 r free tk show ?thesis by (intro exI [of _ "Suc k"]) simp
  qed
qed

lemma card_filter_dom: "card {q \<in> fmdom' fs. P q} \<le> card (fmdom' fs)"
  by (intro card_mono) auto

text \<open>
  Claim C10. The loop that handles duplicate names ends on every file system: each name
  it tries is longer than the one before, and after at most one step more than there are
  paths in the file system it returns a path that does not exist; every name tried
  before that one exists. The \<open>k\<close>-th name tried is \<open>candidate name counter k\<close>.
\<close>

theorem collision_loop_terminates:
  "length name < length (next_name name counter) \<and>
   (\<exists>k. k \<le> card (fmdom' fs) + 1
      \<and> collision_loop fs target_folder name counter
          = (target_folder @ [candidate name counter k], counter + k)
      \<and> \<not> exists fs (target_folder @ [candidate name counter k])
      \<and> (\<forall>j<k. exists fs (target_folder @ [candidate name counter j])))"
proof -
  from collision_loop_steps [of fs name target_folder counter] obtain k where
    b: "k \<le> card {q \<in> fmdom' fs. length name \<le> length (last q)} + (if name = ''..'' then 1 else 0)"
    and rest: "collision_loop fs target_folder name counter
          = (target_folder @ [candidate name counter k], counter + k)"
      "\<not> exists fs (target_folder @ [candidate name counter k])"
      "\<forall>j<k. exists fs (target_folder @ [candidate name counter j])"
    by blast
  have "k \<le> card (fmdom' fs) + 1"
    using b card_filter_dom [of fs "\<lambda>q. length name \<le> length (last q)"] by (simp split: if_splits)
  with rest length_next_name show ?thesis by blast
qed

theorem collision_loop_terminates_witness:
  "length ''photo.jpg'' < length (next_name ''photo.jpg'' 1)
   \<and> collision_loop one_photo [''dst''] ''photo.jpg'' 1 = ([''dst'', ''photo_1.jpg''], 2)
   \<and> exists one_photo [''dst'', ''photo.jpg'']
   \<and> \<not> exists one_photo [''dst'', ''photo_1.jpg'']"
proof -
  have longer: "length ''photo.jpg'' < length (next_name ''photo.jpg'' 1)"
    using collision_loop_terminates [of "''photo.jpg''" 1 one_photo "[''dst'']"]
    by (rule conjunct1)
  have run: "collision_loop one_photo [''dst''] ''photo.jpg'' 1 = ([''dst'', ''photo_1.jpg''], 2)"
    by code_simp
  have taken: "exists one_photo [''dst'', ''photo.jpg'']"
    by code_simp
  have free: "\<not> exists one_photo [''dst'', ''photo_1.jpg'']"
    by code_simp
  from longer run taken free show ?thesis by simp
qed

text \<open>
  Claim C3. The claim says that the \<open>k\<close>-th alternate name carries the suffix \<open>k\<close>
  before the extension of the original name, so that the second alternate of
  \<open>photo.jpg\<close> is \<open>photo_2.jpg\<close>. The loop takes the stem of the name it has just
  tried, not of the original name: the second alternate is \<open>photo_1_2.jpg\<close>. With
  three archives that each hold \<open>Google Photos/Trip/photo.jpg\<close>, the third copy is
  written to \<open>Trip/photo_1_2.jpg\<close> and there is no \<open>Trip/photo_2.jpg\<close>.
\<close>

theorem second_alternate_stacks_suffixes:
  "candidate ''photo.jpg'' 1 1 = ''photo_1.jpg''
   \<and> candidate ''photo.jpg'' 1 2 = ''photo_1_2.jpg''
   \<and> lookup (final_disk (main [''script.py'', ''/src'', ''/dst''] (env_of three_trips fmempty)))
        [''dst'', ''Trip'', ''photo_1.jpg''] = Some (File [2])
   \<and> lookup (final_disk (main [''script.py'', ''/src'', ''/dst''] (env_of three_trips fmempty)))
        [''dst'', ''Trip'', ''photo_1_2.jpg''] = Some (File [3])
   \<and> lookup (final_disk (main [''script.py'', ''/src'', ''/dst''] (env_of three_trips fmempty)))
        [''dst'', ''Trip'', ''photo_2.jpg''] = None"
  by code_simp

section \<open>The path filter\<close>

lemma root_cases: "fst (splitroot p) = [] \<or> fst (splitroot p) = ''/'' \<or> fst (splitroot p) = ''//''"
  by (simp add: splitroot_def Let_def)

lemma marker_not_root: "marker \<noteq> fst (splitroot p)"
  using root_cases [of p] by (auto simp: marker_def)

lemma marker_in_tail:
  assumes "marker \<in> set (parts p)"
  shows "marker \<in> set (path_tail p)"
  using assms marker_not_root [of p] by (auto simp: parts_def Let_def split: if_splits)

lemma name_is_last_part:
  assumes "path_tail p \<noteq> []"
  shows "path_name p = last (parts p)"
  using assms by (cases "path_tail p") (auto simp: path_name_def parts_def Let_def)

lemma name_of_marked:
  assumes "marker \<in> set (parts p)"
  shows "path_name p = last (parts p)"
proof -
  from marker_in_tail [OF assms] have "path_tail p \<noteq> []" by auto
  then show ?thesis by (rule name_is_last_part)
qed

lemma py_index_split:
  "x \<in> set xs \<Longrightarrow>
   \<exists>i. py_index x xs = Some i \<and> i < length xs \<and> xs = take i xs @ [x] @ drop (Suc i) xs
       \<and> x \<notin> set (take i xs)"
proof (induction xs)
  case Nil
  then show ?case by simp
next
  case (Cons y ys)
  show ?case
  proof (cases "y = x")
    case True
    then show ?thesis by simp
  next
    case False
    with Cons.prems have "x \<in> set ys" by simp
    from Cons.IH [OF this] obtain i where
      "py_index x ys = Some i" "i < length ys" "ys = take i ys @ [x] @ drop (Suc i) ys"
      "x \<notin> set (take i ys)" by blast
    with False show ?thesis by (intro exI [of _ "Suc i"]) simp
  qed
qed

lemma py_index_none: "x \<notin> set xs \<Longrightarrow> py_index x xs = None"
  by (induction xs) auto

lemma slice_to_last_butlast: "slice_to_last xs i = butlast (drop i xs)"
  by (simp add: slice_to_last_def butlast_conv_take)

lemma suffix_marker: "lower (suffix_of marker) \<notin> allowed_suffixes"
  by code_simp

lemma accepted_split:
  assumes "\<not> passed_over m"
  shows "\<exists>pre subs. subfolders m = Inr subs
           \<and> parts (filename m) = pre @ [marker] @ subs @ [path_name (filename m)]
           \<and> marker \<notin> set pre"
proof -
  let ?ps = "parts (filename m)"
  from assms have mk: "marker \<in> set ?ps"
    and sf: "lower (suffix_of (path_name (filename m))) \<in> allowed_suffixes"
    by (simp_all add: passed_over_def)
  from py_index_split [OF mk] obtain i where
    idx: "py_index marker ?ps = Some i" and lt: "i < length ?ps"
    and split: "?ps = take i ?ps @ [marker] @ drop (Suc i) ?ps"
    and first: "marker \<notin> set (take i ?ps)" by blast
  have nm: "path_name (filename m) = last ?ps"
    by (rule name_of_marked [OF mk])
  have rest: "drop (Suc i) ?ps \<noteq> []"
  proof
    assume "drop (Suc i) ?ps = []"
    with split have "?ps = take i ?ps @ [marker]" by simp
    then have "last ?ps = marker" by (metis last_snoc)
    with nm sf suffix_marker show False by simp
  qed
  then have "last (drop (Suc i) ?ps) = last ?ps" using lt by simp
  with rest have "drop (Suc i) ?ps = butlast (drop (Suc i) ?ps) @ [path_name (filename m)]"
    using nm by (metis append_butlast_last_id)
  with split have "?ps = take i ?ps @ [marker] @ butlast (drop (Suc i) ?ps) @ [path_name (filename m)]"
    by simp
  moreover have "subfolders m = Inr (butlast (drop (Suc i) ?ps))"
    using idx by (simp add: subfolders_def slice_to_last_butlast)
  ultimately show ?thesis using first by blast
qed

lemma passed_over_iff:
  assumes "\<not> is_dir m"
  shows "passed_over m \<longleftrightarrow> \<not> spec_eligible (parts (filename m))"
proof (cases "marker \<in> set (parts (filename m))")
  case False
  then show ?thesis by (simp add: passed_over_def spec_eligible_def marker_def)
next
  case True
  have "path_name (filename m) = last (parts (filename m))"
    by (rule name_of_marked [OF True])
  then show ?thesis
    using assms True by (auto simp: passed_over_def spec_eligible_def marker_def allowed_suffixes_def)
qed

text \<open>
  Claim C4. For a member that is not a directory, the tests of the program pass the
  member over exactly when its path is not eligible in the words of the specification.
  When it is eligible, its components are some components without the marker, the
  marker, the subfolders, and the file name, in this order, and the member is
  materialized under these subfolders. When it is not, the file system is left as it is
  and no exception is raised.
\<close>

theorem path_filter_eligibility:
  assumes "\<not> is_dir m"
  shows "(passed_over m \<longleftrightarrow> \<not> spec_eligible (parts (filename m)))
    \<and> (spec_eligible (parts (filename m)) \<longrightarrow>
         (\<exists>pre subs. parts (filename m) = pre @ [''Google Photos''] @ subs @ [path_name (filename m)]
            \<and> ''Google Photos'' \<notin> set pre
            \<and> subfolders m = Inr subs
            \<and> extract_member fs dest_dir m
                = materialize fs dest_dir subs (path_name (filename m)) m))
    \<and> (\<not> spec_eligible (parts (filename m)) \<longrightarrow> extract_member fs dest_dir m = (fs, None))"
proof (cases "passed_over m")
  case True
  then show ?thesis using passed_over_iff [OF assms] by (simp add: extract_member_def)
next
  case False
  from accepted_split [OF False] obtain pre subs where
    "subfolders m = Inr subs"
    "parts (filename m) = pre @ [marker] @ subs @ [path_name (filename m)]"
    "marker \<notin> set pre" by blast
  then have "parts (filename m) = pre @ [''Google Photos''] @ subs @ [path_name (filename m)]
            \<and> ''Google Photos'' \<notin> set pre
            \<and> subfolders m = Inr subs
            \<and> extract_member fs dest_dir m
                = materialize fs dest_dir subs (path_name (filename m)) m"
    using False by (simp add: extract_member_def marker_def)
  then show ?thesis using False passed_over_iff [OF assms] by blast
qed

theorem path_filter_eligibility_witness:
  "\<not> is_dir day_one
   \<and> spec_eligible (parts (filename day_one))
   \<and> \<not> passed_over day_one
   \<and> parts (filename day_one) = [''Takeout'', ''Google Photos'', ''Trip'', ''Day 1'', ''IMG_1.JPG'']
   \<and> subfolders day_one = Inr [''Trip'', ''Day 1'']"
proof -
  have nd: "\<not> is_dir day_one" by code_simp
  have el: "spec_eligible (parts (filename day_one))" by code_simp
  have "passed_over day_one \<longleftrightarrow> \<not> spec_eligible (parts (filename day_one))"
    using path_filter_eligibility [OF nd, of fmempty "[''dst'']"] by (rule conjunct1)
  with el have acc: "\<not> passed_over day_one" by simp
  have ps: "parts (filename day_one) = [''Takeout'', ''Google Photos'', ''Trip'', ''Day 1'', ''IMG_1.JPG'']"
    by code_simp
  have subs: "subfolders day_one = Inr [''Trip'', ''Day 1'']" by code_simp
  from nd el acc ps subs show ?thesis by simp
qed

section \<open>The order of the archives\<close>





section \<open>The lists of the summary\<close>

lemma announced_append: "announced (xs @ ys) = announced xs @ announced ys"
  by (induction xs rule: announced.induct) simp_all

lemma warned_append: "warned (xs @ ys) = warned xs @ warned ys"
  by (induction xs rule: warned.induct) simp_all

lemma success_items_append: "success_items (xs @ ys) = success_items xs @ success_items ys"
  by (induction xs rule: success_items.induct) simp_all

lemma skipped_items_append: "skipped_items (xs @ ys) = skipped_items xs @ skipped_items ys"
  by (induction xs rule: skipped_items.induct) simp_all









lemma process_one_fields:
  "successful_zips (process_one d st za)
     = successful_zips st @ succeeded [(fst za, snd (process_zip (disk st) d (snd za)))]"
  "skipped_zips (process_one d st za)
     = skipped_zips st @ failed [(fst za, snd (process_zip (disk st) d (snd za)))]"
  "warned (printed (process_one d st za))
     = warned (printed st) @ failed [(fst za, snd (process_zip (disk st) d (snd za)))]"
  "announced (printed (process_one d st za)) = announced (printed st) @ [fst za]"
  "success_items (printed (process_one d st za)) = success_items (printed st)"
  "skipped_items (printed (process_one d st za)) = skipped_items (printed st)"
  by (simp_all add: process_one_def Let_def succeeded_def failed_def warned_append
      announced_append success_items_append skipped_items_append
      split: prod.splits option.splits exn.splits)

lemma succeeded_Cons: "succeeded (r # rs) = succeeded [r] @ succeeded rs"
  by (simp add: succeeded_def)

lemma failed_Cons: "failed (r # rs) = failed [r] @ failed rs"
  by (simp add: failed_def)

lemma process_all_fields:
  "successful_zips (process_all d st zas) = successful_zips st @ succeeded (outcomes d (disk st) zas)
   \<and> skipped_zips (process_all d st zas) = skipped_zips st @ failed (outcomes d (disk st) zas)
   \<and> warned (printed (process_all d st zas)) = warned (printed st) @ failed (outcomes d (disk st) zas)
   \<and> announced (printed (process_all d st zas)) = announced (printed st) @ map fst zas
   \<and> success_items (printed (process_all d st zas)) = success_items (printed st)
   \<and> skipped_items (printed (process_all d st zas)) = skipped_items (printed st)"
proof (induction zas arbitrary: st)
  case Nil
  show ?case by (simp add: succeeded_def failed_def)
next
  case (Cons za zas)
  have "outcomes d (disk st) (za # zas)
     = (fst za, snd (process_zip (disk st) d (snd za))) # outcomes d (disk (process_one d st za)) zas"
    by (simp add: disk_process_one)
  then show ?case
    using Cons.IH [of "process_one d st za"]
    by (simp add: process_one_fields succeeded_Cons [of _ "outcomes _ _ _"]
        failed_Cons [of _ "outcomes _ _ _"])
qed

lemma initial_fields:
  "disk (initial_state fs) = fs" "successful_zips (initial_state fs) = []"
  "skipped_zips (initial_state fs) = []" "printed (initial_state fs) = []"
  by (simp_all add: initial_state_def)

lemma batch_fields:
  "successful_zips (process_all d (initial_state fs) zas) = succeeded (outcomes d fs zas)"
  "skipped_zips (process_all d (initial_state fs) zas) = failed (outcomes d fs zas)"
  "warned (printed (process_all d (initial_state fs) zas)) = failed (outcomes d fs zas)"
  "announced (printed (process_all d (initial_state fs) zas)) = map fst zas"
  "success_items (printed (process_all d (initial_state fs) zas)) = []"
  "skipped_items (printed (process_all d (initial_state fs) zas)) = []"
  using process_all_fields [of d "initial_state fs" zas] by (simp_all add: initial_fields)

lemma sorted_lower_sort: "sorted (map lower (sort_key lower ns))"
  by simp

lemma names_outcomes: "map fst (outcomes d fs zas) = map fst zas"
  by (induction zas arbitrary: fs) simp_all

lemma mset_succeeded_failed: "mset (succeeded rs) + mset (failed rs) = mset (map fst rs)"
  by (induction rs) (simp_all add: succeeded_def failed_def)

lemma succeeded_iff: "n \<in> set (succeeded rs) \<longleftrightarrow> (n, None) \<in> set rs"
  by (force simp: succeeded_def)

lemma failed_iff: "n \<in> set (failed rs) \<longleftrightarrow> (\<exists>ex. (n, Some ex) \<in> set rs)"
  by (force simp: failed_def)

lemma one_record:
  assumes "distinct (map fst rs)" "(n, r) \<in> set rs" "(n, r') \<in> set rs"
  shows "r = r'"
proof -
  from assms(1) have "inj_on fst (set rs)" by (simp add: distinct_map)
  from inj_onD [OF this _ assms(2) assms(3)] show ?thesis by simp
qed

lemma succeeded_failed_disjoint:
  assumes "distinct (map fst rs)"
  shows "set (succeeded rs) \<inter> set (failed rs) = {}"
proof -
  have False if "n \<in> set (succeeded rs)" "n \<in> set (failed rs)" for n
  proof -
    from that obtain ex where "(n, None) \<in> set rs" "(n, Some ex) \<in> set rs"
      by (auto simp: succeeded_iff failed_iff)
    from one_record [OF assms this] show False by simp
  qed
  then show ?thesis by blast
qed

lemma outcomes_append:
  "outcomes d (disk st) (xs @ ys)
     = outcomes d (disk st) xs @ outcomes d (disk (process_all d st xs)) ys"
proof (induction xs arbitrary: st)
  case Nil
  show ?case by simp
next
  case (Cons za xs)
  from Cons.IH [of "process_one d st za"] show ?case by (simp add: disk_process_one)
qed

lemma outcome_at:
  assumes "distinct (map fst zas)" "zas = pre @ (n, a) # post"
  shows "(n, r) \<in> set (outcomes d fs zas)
         \<longleftrightarrow> r = snd (process_zip (disk (process_all d (initial_state fs) pre)) d a)"
proof -
  let ?r = "snd (process_zip (disk (process_all d (initial_state fs) pre)) d a)"
  have "outcomes d (disk (initial_state fs)) (pre @ (n, a) # post)
        = outcomes d (disk (initial_state fs)) pre
          @ outcomes d (disk (process_all d (initial_state fs) pre)) ((n, a) # post)"
    by (rule outcomes_append)
  then have here: "(n, ?r) \<in> set (outcomes d fs zas)"
    using assms(2) by (simp add: initial_fields)
  have dist: "distinct (map fst (outcomes d fs zas))"
    using assms(1) by (simp add: names_outcomes)
  show ?thesis
  proof
    assume "(n, r) \<in> set (outcomes d fs zas)"
    from one_record [OF dist this here] show "r = ?r" .
  next
    assume "r = ?r"
    with here show "(n, r) \<in> set (outcomes d fs zas)" by simp
  qed
qed

lemma some_eq_iff: "(\<exists>ex. Some ex = x) \<longleftrightarrow> x \<noteq> None"
  by (cases x) auto

lemma none_eq_iff: "None = x \<longleftrightarrow> x = None"
  by auto

lemma all_passed_over:
  "\<forall>m\<in>set ms. passed_over m \<Longrightarrow> process_members fs d ms = (fs, None)"
  by (induction ms) (simp_all add: extract_member_def)



text \<open>
  Claim C6. In a batch of archives with distinct names, every archive has one outcome
  record, under its name and in the order processed. The list of successful archives
  holds the names whose record has no exception, the list of skipped archives the names
  whose record has one; together they hold every name once, and no name is in both. An
  archive is in the successful list exactly when processing it, on the file system left
  by the archives before it, raised no exception, and in the skipped list exactly when
  it raised one. An archive all of whose members are passed over raises none and leaves
  the file system as it is.
\<close>

theorem one_outcome_per_archive:
  assumes "distinct (map fst zas)"
    and "st = process_all d (initial_state fs) zas"
  shows "map fst (outcomes d fs zas) = map fst zas
    \<and> successful_zips st = succeeded (outcomes d fs zas)
    \<and> skipped_zips st = failed (outcomes d fs zas)
    \<and> mset (successful_zips st) + mset (skipped_zips st) = mset (map fst zas)
    \<and> set (successful_zips st) \<inter> set (skipped_zips st) = {}
    \<and> (\<forall>pre n a post. zas = pre @ (n, a) # post \<longrightarrow>
          (n \<in> set (successful_zips st)
             \<longleftrightarrow> snd (process_zip (disk (process_all d (initial_state fs) pre)) d a) = None)
        \<and> (n \<in> set (skipped_zips st)
             \<longleftrightarrow> snd (process_zip (disk (process_all d (initial_state fs) pre)) d a) \<noteq> None))
    \<and> ((\<forall>m\<in>set ms. passed_over m) \<longrightarrow> process_zip fs' d (Zip ms) = (fs', None))"
proof -
  let ?rs = "outcomes d fs zas"
  have s: "successful_zips st = succeeded ?rs" and k: "skipped_zips st = failed ?rs"
    using assms(2) by (simp_all add: batch_fields)
  have dist: "distinct (map fst ?rs)" using assms(1) by (simp add: names_outcomes)
  have m: "mset (successful_zips st) + mset (skipped_zips st) = mset (map fst zas)"
    using mset_succeeded_failed [of ?rs] by (simp add: s k names_outcomes)
  have i: "set (successful_zips st) \<inter> set (skipped_zips st) = {}"
    using succeeded_failed_disjoint [OF dist] by (simp add: s k)
  have p: "(n \<in> set (successful_zips st)
             \<longleftrightarrow> snd (process_zip (disk (process_all d (initial_state fs) pre)) d a) = None)
        \<and> (n \<in> set (skipped_zips st)
             \<longleftrightarrow> snd (process_zip (disk (process_all d (initial_state fs) pre)) d a) \<noteq> None)"
    if "zas = pre @ (n, a) # post" for pre n a post
  proof -
    let ?r = "snd (process_zip (disk (process_all d (initial_state fs) pre)) d a)"
    have at: "(n, r) \<in> set ?rs \<longleftrightarrow> r = ?r" for r
      by (rule outcome_at [OF assms(1) that])
    have "n \<in> set (succeeded ?rs) \<longleftrightarrow> ?r = None"
      unfolding succeeded_iff at by (rule none_eq_iff)
    moreover have "n \<in> set (failed ?rs) \<longleftrightarrow> ?r \<noteq> None"
      unfolding failed_iff at by (rule some_eq_iff)
    ultimately show ?thesis unfolding s k by (rule conjI)
  qed
  have q: "(\<forall>m\<in>set ms. passed_over m) \<longrightarrow> process_zip fs' d (Zip ms) = (fs', None)"
    by (simp add: process_zip_def all_passed_over)
  have n: "map fst ?rs = map fst zas" by (rule names_outcomes)
  from p have p': "\<forall>pre n a post. zas = pre @ (n, a) # post \<longrightarrow>
          (n \<in> set (successful_zips st)
             \<longleftrightarrow> snd (process_zip (disk (process_all d (initial_state fs) pre)) d a) = None)
        \<and> (n \<in> set (skipped_zips st)
             \<longleftrightarrow> snd (process_zip (disk (process_all d (initial_state fs) pre)) d a) \<noteq> None)"
    by blast
  show ?thesis
    by (intro conjI) (rule n, rule s, rule k, rule m, rule i, rule p', rule q)
qed

theorem one_outcome_per_archive_witness:
  "distinct (map fst other_folder_batch)
   \<and> successful_zips (process_all [''dst''] (initial_state fmempty) other_folder_batch) = [''A.zip'']
   \<and> skipped_zips (process_all [''dst''] (initial_state fmempty) other_folder_batch) = [''broken.zip'']
   \<and> set (successful_zips (process_all [''dst''] (initial_state fmempty) other_folder_batch))
       \<inter> set (skipped_zips (process_all [''dst''] (initial_state fmempty) other_folder_batch)) = {}"
proof -
  have dist: "distinct (map fst other_folder_batch)" by code_simp
  have ok: "successful_zips (process_all [''dst''] (initial_state fmempty) other_folder_batch) = [''A.zip'']"
    by code_simp
  have sk: "skipped_zips (process_all [''dst''] (initial_state fmempty) other_folder_batch) = [''broken.zip'']"
    by code_simp
  have "set (successful_zips (process_all [''dst''] (initial_state fmempty) other_folder_batch))
       \<inter> set (skipped_zips (process_all [''dst''] (initial_state fmempty) other_folder_batch)) = {}"
    using one_outcome_per_archive [OF dist refl, of "[''dst'']" fmempty] by blast
  with dist ok sk show ?thesis by simp
qed

section \<open>Writing to a free path\<close>


lemma lower_nil: "lower s = [] \<longleftrightarrow> s = []"
  by (simp add: lower_def)

















section \<open>How a run ends\<close>













section \<open>Archives that cannot fail\<close>









































end
